theory Spec2Isabelle
  imports Main "HOL-Library.Word" "HOL-Library.Multiset"
begin

unbundle bit_operations_syntax

section \<open>tellenc.cpp: guessing the encoding of a byte buffer\<close>

text \<open>
  The model follows \<^verbatim>\<open>tellenc.cpp\<close> function by function. A buffer is a list of
  bytes and \<^verbatim>\<open>len\<close> is its length. The counters are \<^verbatim>\<open>size_t\<close> in the source; each of
  them counts at most \<^verbatim>\<open>len\<close> events and \<^verbatim>\<open>len\<close> is a \<^verbatim>\<open>size_t\<close> itself, so they are
  natural numbers here, and the one product the source forms
  (\<^verbatim>\<open>dbyte_hihi_cnt * 100\<close>) is reduced modulo the range of \<^verbatim>\<open>size_t\<close>.
  The diagnostic printing under \<^verbatim>\<open>verbose\<close> returns nothing and is left out.
\<close>

subsection \<open>Types and what the C++ implementation leaves open\<close>

type_synonym uint8_t = "8 word"
type_synonym uint16_t = "16 word"
type_synonym char_count_t = "uint16_t \<times> nat"

text \<open>
  Three things the source depends on are fixed by the C++ implementation and not by the
  source: whether plain \<^verbatim>\<open>char\<close> is signed (\<^verbatim>\<open>is_non_text\<close> takes a \<^verbatim>\<open>char\<close>), the
  width of \<^verbatim>\<open>size_t\<close>, and what \<^verbatim>\<open>std::sort\<close> does with the elements it is given.
  They are the fields of \<open>impl\<close>; every function that depends on one of them takes it as
  its first argument.
\<close>

record impl =
  char_is_signed :: bool
  size_t_bits :: nat
  std_sort :: "char_count_t list \<Rightarrow> char_count_t list"

text \<open>\<^verbatim>\<open>greater_char_count\<close>: the comparison handed to \<^verbatim>\<open>std::sort\<close>.\<close>

definition greater_char_count :: "char_count_t \<Rightarrow> char_count_t \<Rightarrow> bool" where
  "greater_char_count lhs rhs = (if snd lhs > snd rhs then True else False)"

text \<open>
  What \<^verbatim>\<open>std::sort(first, last, comp)\<close> promises about its output \<open>ys\<close> for the input
  \<open>xs\<close>: the same elements, and no element ordered by \<open>comp\<close> before an earlier one. The
  order of elements that \<open>comp\<close> does not separate is not part of the promise
  (that is \<^verbatim>\<open>std::stable_sort\<close>, which the source does not call).
\<close>

definition std_sort_post :: "char_count_t list \<Rightarrow> char_count_t list \<Rightarrow> bool" where
  "std_sort_post xs ys \<longleftrightarrow>
     mset ys = mset xs \<and> sorted_wrt (\<lambda>a b. \<not> greater_char_count b a) ys"

datatype UTF8_State = UTF8_INVALID | UTF8_1 | UTF8_2 | UTF8_3 | UTF8_4 | UTF8_TAIL

text \<open>The enumerators as the integers the local \<^verbatim>\<open>int utf8_state\<close> holds.\<close>

fun enum_val :: "UTF8_State \<Rightarrow> int" where
  "enum_val UTF8_INVALID = 0"
| "enum_val UTF8_1 = 1"
| "enum_val UTF8_2 = 2"
| "enum_val UTF8_3 = 3"
| "enum_val UTF8_4 = 4"
| "enum_val UTF8_TAIL = 5"

definition MAX_CHAR :: nat where
  "MAX_CHAR = 256"

definition NON_TEXT_CHARS :: "uint8_t list" where
  "NON_TEXT_CHARS = [0, 26, 127, 255]"

definition NUL :: uint8_t where
  "NUL = 0"

definition ODD :: int where
  "ODD = 1"

definition EVEN :: int where
  "EVEN = 2"

text \<open>\<^verbatim>\<open>EOF\<close> of \<^verbatim>\<open>stdio.h\<close>, the value of \<^verbatim>\<open>last_ch\<close> when no byte is pending.\<close>

definition EOF :: int where
  "EOF = - 1"

definition freq_analysis_data :: "(uint16_t \<times> string) list" where
  "freq_analysis_data =
    [(0xa3ac, ''gbk''), (0xa1a3, ''gbk''), (0xa1a1, ''gbk''), (0xa1ad, ''gbk''),
     (0xb5c4, ''gbk''), (0xbfc9, ''gbk''), (0xbaf3, ''gbk''), (0xd2bb, ''gbk''),
     (0xced2, ''gbk''), (0xcac7, ''gbk''), (0xb8f6, ''gbk''), (0xb2bb, ''gbk''),
     (0xc8cb, ''gbk''), (0xd5e2, ''gbk''), (0xc1cb, ''gbk''), (0xd6ae, ''gbk''),
     (0xa141, ''big5''), (0xa143, ''big5''), (0xaaba, ''big5''), (0xa7da, ''big5''),
     (0xa54c, ''big5''), (0xa66f, ''big5''), (0xa4a3, ''big5''), (0xa440, ''big5''),
     (0xa446, ''big5''), (0xa457, ''big5''), (0xbba1, ''big5''), (0xac4f, ''big5''),
     (0xa662, ''big5'')]"

subsection \<open>The statics\<close>

text \<open>
  The file-level variables \<^verbatim>\<open>utf8_char_table\<close>, \<^verbatim>\<open>is_binary\<close>, \<^verbatim>\<open>is_utf8_conformant\<close>
  and \<^verbatim>\<open>nul_stat\<close>. The table has \<^verbatim>\<open>MAX_CHAR\<close> entries and is only ever indexed by an
  \<^verbatim>\<open>unsigned char\<close>, so it is a function on bytes.
\<close>

record globals =
  utf8_char_table :: "uint8_t \<Rightarrow> UTF8_State"
  is_binary :: bool
  is_utf8_conformant :: bool
  nul_stat :: int

text \<open>The statics at program start: the initialisers of the source, the table zeroed.\<close>

definition static_init :: globals where
  "static_init =
     \<lparr>utf8_char_table = (\<lambda>_. UTF8_INVALID), is_binary = False,
      is_utf8_conformant = True, nul_stat = 0\<rparr>"

subsection \<open>Helpers of the source\<close>

text \<open>
  \<^verbatim>\<open>is_non_text(char ch)\<close>: the byte is converted to \<^verbatim>\<open>char\<close> and compared, after integer
  promotion, with each \<^verbatim>\<open>unsigned char\<close> of \<^verbatim>\<open>NON_TEXT_CHARS\<close>.
\<close>

definition char_value :: "impl \<Rightarrow> uint8_t \<Rightarrow> int" where
  "char_value P ch = (if char_is_signed P then sint ch else uint ch)"

fun is_non_text_from :: "impl \<Rightarrow> uint8_t list \<Rightarrow> uint8_t \<Rightarrow> bool" where
  "is_non_text_from P [] ch = False"
| "is_non_text_from P (c # cs) ch =
     (if char_value P ch = uint c then True else is_non_text_from P cs ch)"

definition is_non_text :: "impl \<Rightarrow> uint8_t \<Rightarrow> bool" where
  "is_non_text P ch = is_non_text_from P NON_TEXT_CHARS ch"

definition is_odd_even :: "nat \<Rightarrow> int" where
  "is_odd_even pos = (let pos = pos AND 1 in if pos \<noteq> 0 then ODD else EVEN)"

text \<open>
  \<^verbatim>\<open>init_utf8_char_table\<close>: the variable \<^verbatim>\<open>ch\<close> runs through the six \<^verbatim>\<open>for\<close> loops, each
  filling the table up to its bound.
\<close>

function fill_table ::
  "int \<Rightarrow> UTF8_State \<Rightarrow> int \<times> (uint8_t \<Rightarrow> UTF8_State) \<Rightarrow> int \<times> (uint8_t \<Rightarrow> UTF8_State)"
where
  "fill_table hi v (ch, tbl) =
     (if ch \<le> hi then fill_table hi v (ch + 1, tbl(word_of_int ch := v)) else (ch, tbl))"
  by pat_completeness auto
termination
  by (relation "measure (\<lambda>(hi, v, ch, tbl). nat (hi + 1 - ch))") auto

definition init_utf8_char_table :: "globals \<Rightarrow> globals" where
  "init_utf8_char_table g =
     (let ch = 0;
          tbl = (utf8_char_table g)(word_of_int ch := UTF8_INVALID);
          ch = ch + 1;
          r = fill_table 0x7F UTF8_1 (ch, tbl);
          r = fill_table 0xBF UTF8_TAIL r;
          r = fill_table 0xC1 UTF8_INVALID r;
          r = fill_table 0xDF UTF8_2 r;
          r = fill_table 0xEF UTF8_3 r;
          r = fill_table 0xF4 UTF8_4 r;
          r = fill_table 0xFF UTF8_INVALID r
      in g\<lparr>utf8_char_table := snd r\<rparr>)"

text \<open>\<^verbatim>\<open>init_char_count\<close>: entry \<open>i\<close> becomes the pair of \<open>i\<close> and the count zero.\<close>

definition init_char_count :: "char_count_t list" where
  "init_char_count = map (\<lambda>i. (word_of_nat i, 0)) [0..<MAX_CHAR]"

text \<open>
  \<^verbatim>\<open>check_ucs_bom\<close>: the patterns in the order of the source, each with its length;
  \<^verbatim>\<open>memcmp\<close> over \<open>n\<close> bytes is equality of the first \<open>n\<close> bytes. The caller guarantees
  more than four bytes.
\<close>

definition patterns :: "(string \<times> uint8_t list \<times> nat) list" where
  "patterns =
    [(''ucs-4'', [0x00, 0x00, 0xFE, 0xFF], 4),
     (''ucs-4le'', [0xFF, 0xFE, 0x00, 0x00], 4),
     (''utf-8'', [0xEF, 0xBB, 0xBF], 3),
     (''utf-16'', [0xFE, 0xFF], 2),
     (''utf-16le'', [0xFF, 0xFE], 2)]"

definition memcmp_eq :: "uint8_t list \<Rightarrow> uint8_t list \<Rightarrow> nat \<Rightarrow> bool" where
  "memcmp_eq a b n \<longleftrightarrow> take n a = take n b"

fun check_ucs_bom_from :: "(string \<times> uint8_t list \<times> nat) list \<Rightarrow> uint8_t list \<Rightarrow> string option"
where
  "check_ucs_bom_from [] buffer = None"
| "check_ucs_bom_from ((name, pattern, pattern_len) # ps) buffer =
     (if memcmp_eq buffer pattern pattern_len then Some name
      else check_ucs_bom_from ps buffer)"

definition check_ucs_bom :: "uint8_t list \<Rightarrow> string option" where
  "check_ucs_bom buffer = check_ucs_bom_from patterns buffer"

fun check_dbyte_from :: "(uint16_t \<times> string) list \<Rightarrow> uint16_t \<Rightarrow> string option" where
  "check_dbyte_from [] dbyte = None"
| "check_dbyte_from ((d, enc) # rest) dbyte =
     (if dbyte = d then Some enc else check_dbyte_from rest dbyte)"

definition check_dbyte :: "uint16_t \<Rightarrow> string option" where
  "check_dbyte dbyte = check_dbyte_from freq_analysis_data dbyte"

fun check_freq_dbytes_from :: "char_count_t list \<Rightarrow> string option" where
  "check_freq_dbytes_from [] = None"
| "check_freq_dbytes_from (e # es) =
     (case check_dbyte (fst e) of Some enc \<Rightarrow> Some enc
      | None \<Rightarrow> check_freq_dbytes_from es)"

definition check_freq_dbytes :: "char_count_t list \<Rightarrow> string option" where
  "check_freq_dbytes dbyte_char_cnt =
     (let max_comp_idx = 10;
          max_comp_idx =
            (if max_comp_idx > length dbyte_char_cnt then length dbyte_char_cnt
             else max_comp_idx)
      in check_freq_dbytes_from (take max_comp_idx dbyte_char_cnt))"

subsection \<open>The scan of \<^verbatim>\<open>tellenc\<close>\<close>

text \<open>
  The locals of \<^verbatim>\<open>tellenc\<close> that the loop reads and writes. \<open>pos\<close> is \<^verbatim>\<open>p - buffer\<close>.
  \<^verbatim>\<open>mp_dbyte_char_cnt\<close> is a \<^verbatim>\<open>std::map\<close>: its entries are kept in ascending key order,
  the order in which the source later iterates over it.
\<close>

record locals =
  char_cnt :: "char_count_t list"
  mp_dbyte_char_cnt :: "(uint16_t \<times> nat) list"
  dbyte_cnt :: nat
  dbyte_hihi_cnt :: nat
  pos :: nat
  last_ch :: int
  utf8_state :: int

text \<open>\<^verbatim>\<open>mp[k]++\<close> on the ordered map: a missing key is entered with count zero first.\<close>

fun map_incr :: "uint16_t \<Rightarrow> (uint16_t \<times> nat) list \<Rightarrow> (uint16_t \<times> nat) list" where
  "map_incr k [] = [(k, 1)]"
| "map_incr k ((k', n) # m) =
     (if k = k' then (k', n + 1) # m
      else if k < k' then (k, 1) # (k', n) # m
      else (k', n) # map_incr k m)"

text \<open>Lines 290 to 297: the binary flag and the parity of the offsets of NUL bytes.\<close>

definition note_non_text :: "impl \<Rightarrow> globals \<Rightarrow> nat \<Rightarrow> uint8_t \<Rightarrow> globals" where
  "note_non_text P g i ch =
     (if is_non_text P ch then
        let g1 = (if \<not> is_binary g then g\<lparr>is_binary := True\<rparr> else g)
        in if ch = NUL then g1\<lparr>nul_stat := nul_stat g1 OR is_odd_even i\<rparr> else g1
      else g)"

text \<open>
  Lines 298 to 337: the switch over the class of the byte. The result is the new
  \<^verbatim>\<open>is_utf8_conformant\<close> and the new \<^verbatim>\<open>utf8_state\<close>.
\<close>

definition utf8_switch :: "UTF8_State \<Rightarrow> int \<Rightarrow> bool \<times> int" where
  "utf8_switch cls st =
     (case cls of
        UTF8_INVALID \<Rightarrow> (False, st)
      | UTF8_1 \<Rightarrow> (if st \<noteq> enum_val UTF8_1 then (False, st) else (True, st))
      | UTF8_2 \<Rightarrow> (if st = enum_val UTF8_1 then (True, enum_val UTF8_2) else (False, st))
      | UTF8_3 \<Rightarrow> (if st = enum_val UTF8_1 then (True, enum_val UTF8_3) else (False, st))
      | UTF8_4 \<Rightarrow> (if st = enum_val UTF8_1 then (True, enum_val UTF8_4) else (False, st))
      | UTF8_TAIL \<Rightarrow> (if st > enum_val UTF8_1 then (True, st - 1) else (False, st)))"

definition utf8_check :: "globals \<Rightarrow> int \<Rightarrow> uint8_t \<Rightarrow> globals \<times> int" where
  "utf8_check g st ch =
     (if is_utf8_conformant g then
        let r = utf8_switch (utf8_char_table g ch) st
        in (g\<lparr>is_utf8_conformant := fst r\<rparr>, snd r)
      else (g, st))"

text \<open>Line 338: \<^verbatim>\<open>char_cnt[ch].second++\<close>.\<close>

definition count_char :: "char_count_t list \<Rightarrow> uint8_t \<Rightarrow> char_count_t list" where
  "count_char cc ch = cc[unat ch := (fst (cc ! unat ch), snd (cc ! unat ch) + 1)]"

text \<open>
  Lines 339 to 349: a pending byte and the current byte make a digraph, whatever the
  current byte is; otherwise a byte from \<^verbatim>\<open>0x80\<close> up becomes pending.
\<close>

definition dbyte_step :: "locals \<Rightarrow> uint8_t \<Rightarrow> locals" where
  "dbyte_step l ch =
     (if last_ch l \<noteq> EOF then
        let dbyte_char = (word_of_int (push_bit 8 (last_ch l) + uint ch) :: uint16_t);
            l1 = l\<lparr>mp_dbyte_char_cnt := map_incr dbyte_char (mp_dbyte_char_cnt l),
                   dbyte_cnt := dbyte_cnt l + 1\<rparr>;
            l2 = (if last_ch l > 0xa0 \<and> ch > 0xa0
                  then l1\<lparr>dbyte_hihi_cnt := dbyte_hihi_cnt l1 + 1\<rparr> else l1)
        in l2\<lparr>last_ch := EOF\<rparr>
      else if ch \<ge> 0x80 then l\<lparr>last_ch := uint ch\<rparr>
      else l)"

text \<open>One turn of the \<^verbatim>\<open>while\<close> loop, lines 289 to 350.\<close>

definition loop_body :: "impl \<Rightarrow> globals \<times> locals \<Rightarrow> uint8_t \<Rightarrow> globals \<times> locals" where
  "loop_body P s ch =
     (let g = fst s; l = snd s;
          g1 = note_non_text P g (pos l) ch;
          r = utf8_check g1 (utf8_state l) ch;
          l1 = l\<lparr>utf8_state := snd r\<rparr>;
          l2 = l1\<lparr>char_cnt := count_char (char_cnt l1) ch\<rparr>;
          l3 = dbyte_step l2 ch
      in (fst r, l3\<lparr>pos := pos l3 + 1\<rparr>))"

text \<open>The loop runs once for each byte from \<^verbatim>\<open>p\<close> to the end of the buffer.\<close>

fun scan_loop :: "impl \<Rightarrow> globals \<times> locals \<Rightarrow> uint8_t list \<Rightarrow> globals \<times> locals" where
  "scan_loop P s [] = s"
| "scan_loop P s (ch # rest) = scan_loop P (loop_body P s ch) rest"

text \<open>The locals as lines 270 to 287 set them up.\<close>

definition initial_locals :: locals where
  "initial_locals =
     \<lparr>char_cnt = init_char_count, mp_dbyte_char_cnt = [], dbyte_cnt = 0,
      dbyte_hihi_cnt = 0, pos = 0, last_ch = EOF, utf8_state = enum_val UTF8_1\<rparr>"

definition scan :: "impl \<Rightarrow> globals \<Rightarrow> uint8_t list \<Rightarrow> globals \<times> locals" where
  "scan P g buffer = scan_loop P (g, initial_locals) buffer"

subsection \<open>After the scan\<close>

text \<open>
  Lines 353 and 359 to 366: the byte histogram is sorted in place; the entries of the map
  are copied, in key order, to a vector, which is sorted.
\<close>

definition sorted_char_cnt :: "impl \<Rightarrow> locals \<Rightarrow> char_count_t list" where
  "sorted_char_cnt P l = std_sort P (char_cnt l)"

definition copy_entries :: "(uint16_t \<times> nat) list \<Rightarrow> char_count_t list" where
  "copy_entries m = foldl (\<lambda>v e. v @ [e]) [] m"

definition sorted_dbyte_char_cnt :: "impl \<Rightarrow> locals \<Rightarrow> char_count_t list" where
  "sorted_dbyte_char_cnt P l = std_sort P (copy_entries (mp_dbyte_char_cnt l))"

text \<open>Lines 377 to 397: the decision; \<open>None\<close> is the \<^verbatim>\<open>NULL\<close> of the last line.\<close>

definition decide :: "impl \<Rightarrow> globals \<Rightarrow> locals \<Rightarrow> string option" where
  "decide P g l =
     (if \<not> is_utf8_conformant g \<and> is_binary g then
        (if nul_stat g = ODD then Some ''utf-16le''
         else if nul_stat g = EVEN then Some ''utf-16''
         else Some ''binary'')
      else if dbyte_cnt l = 0 then Some ''ascii''
      else if is_utf8_conformant g then Some ''utf-8''
      else if (dbyte_hihi_cnt l * 100) mod 2 ^ size_t_bits P div dbyte_cnt l < 5
        then Some ''latin1''
      else if dbyte_hihi_cnt l = dbyte_cnt l then Some ''gb2312''
      else (case check_freq_dbytes (sorted_dbyte_char_cnt P l) of
              Some enc \<Rightarrow> Some enc
            | None \<Rightarrow> None))"

text \<open>\<^verbatim>\<open>tellenc\<close>: the result and the statics it leaves behind.\<close>

definition tellenc :: "impl \<Rightarrow> globals \<Rightarrow> uint8_t list \<Rightarrow> string option \<times> globals" where
  "tellenc P g buffer =
     (let len = length buffer;
          bom = (if len > 4 then check_ucs_bom buffer else None)
      in case bom of
           Some result \<Rightarrow> (Some result, g)
         | None \<Rightarrow>
             (let s = scan P g buffer
              in (decide P (fst s) (snd s), fst s)))"

text \<open>
  \<^verbatim>\<open>main\<close>, from the call of \<^verbatim>\<open>init_utf8_char_table\<close> on: the statics with which it
  calls \<^verbatim>\<open>tellenc\<close>, once, and the line it writes for the bytes it has read.
\<close>

definition statics_at_call :: globals where
  "statics_at_call = init_utf8_char_table static_init"

definition main_output :: "impl \<Rightarrow> uint8_t list \<Rightarrow> string" where
  "main_output P buffer =
     (case fst (tellenc P statics_at_call buffer) of
        Some enc \<Rightarrow> enc
      | None \<Rightarrow> ''unknown'')"

subsection \<open>Notions used in the statements\<close>

text \<open>
  The part of the locals that the digraph pairing reads and writes, and the bits that the
  NUL bytes of a buffer contribute to \<^verbatim>\<open>nul_stat\<close> when the scan starts at offset \<open>i\<close>.
\<close>

definition digraph_part :: "locals \<Rightarrow> (uint16_t \<times> nat) list \<times> nat \<times> nat \<times> int" where
  "digraph_part l = (mp_dbyte_char_cnt l, dbyte_cnt l, dbyte_hihi_cnt l, last_ch l)"

fun nul_offsets :: "impl \<Rightarrow> nat \<Rightarrow> uint8_t list \<Rightarrow> int" where
  "nul_offsets P i [] = 0"
| "nul_offsets P i (ch # rest) =
     (if is_non_text P ch \<and> ch = NUL then is_odd_even i else 0) OR nul_offsets P (i + 1) rest"

text \<open>
  A digraph is stored as the 16-bit value with the pending byte in the upper eight bits.
  \<open>both_above_a0\<close> says that both of its bytes are greater than \<^verbatim>\<open>0xA0\<close>.
\<close>

definition both_above_a0 :: "uint16_t \<Rightarrow> bool" where
  "both_above_a0 k \<longleftrightarrow> uint k div 256 > 0xa0 \<and> uint k mod 256 > 0xa0"

text \<open>
  Two implementations to run the model on. They differ in every field. Both sorts order
  by count, largest first; \<open>impl_a\<close> leaves entries of equal count in the order it
  found them, \<open>impl_b\<close> reverses them.
\<close>

definition impl_a :: impl where
  "impl_a =
     \<lparr>char_is_signed = True, size_t_bits = 32,
      std_sort = (\<lambda>xs. rev (sort_key snd (rev xs)))\<rparr>"

definition impl_b :: impl where
  "impl_b =
     \<lparr>char_is_signed = False, size_t_bits = 64,
      std_sort = (\<lambda>xs. rev (sort_key snd xs))\<rparr>"

section \<open>Properties\<close>

subsection \<open>The table after \<^verbatim>\<open>init_utf8_char_table\<close>\<close>

lemma uint8_word_of_int_eq:
  "0 \<le> ch \<Longrightarrow> ch \<le> 255 \<Longrightarrow> (w = (word_of_int ch :: uint8_t)) = (uint w = ch)"
  by (auto simp: word_uint_eq_iff uint_word_of_int take_bit_int_eq_self)

declare fill_table.simps [simp del]

lemma fill_table_eq:
  "0 \<le> ch \<Longrightarrow> hi \<le> 255 \<Longrightarrow>
   fill_table hi v (ch, tbl) =
     (max ch (hi + 1), \<lambda>w. if ch \<le> uint w \<and> uint w \<le> hi then v else tbl w)"
proof (induction hi v "(ch, tbl)" arbitrary: ch tbl rule: fill_table.induct)
  case (1 hi v ch tbl)
  show ?case
  proof (cases "ch \<le> hi")
    case True
    have "fill_table hi v (ch, tbl) = fill_table hi v (ch + 1, tbl(word_of_int ch := v))"
      using True by (subst fill_table.simps) simp
    also have "\<dots> = (max (ch + 1) (hi + 1),
        \<lambda>w. if ch + 1 \<le> uint w \<and> uint w \<le> hi then v else (tbl(word_of_int ch := v)) w)"
      using "1.hyps" [OF True] "1.prems" by simp
    also have "\<dots> = (max ch (hi + 1), \<lambda>w. if ch \<le> uint w \<and> uint w \<le> hi then v else tbl w)"
      using True "1.prems" by (auto simp: fun_eq_iff uint8_word_of_int_eq)
    finally show ?thesis .
  next
    case False
    then show ?thesis by (subst fill_table.simps) (auto simp: fun_eq_iff)
  qed
qed

lemma utf8_char_table_init:
  "utf8_char_table (init_utf8_char_table g) w =
     (if uint w = 0 then UTF8_INVALID
      else if uint w \<le> 0x7F then UTF8_1
      else if uint w \<le> 0xBF then UTF8_TAIL
      else if uint w \<le> 0xC1 then UTF8_INVALID
      else if uint w \<le> 0xDF then UTF8_2
      else if uint w \<le> 0xEF then UTF8_3
      else if uint w \<le> 0xF4 then UTF8_4
      else UTF8_INVALID)"
proof -
  define n where "n = uint w"
  have n: "0 \<le> n" "n \<le> 255"
    using uint_bounded [of w] by (simp_all add: n_def)
  have "utf8_char_table (init_utf8_char_table g) w =
     (if n = 0 then UTF8_INVALID
      else if n \<le> 0x7F then UTF8_1
      else if n \<le> 0xBF then UTF8_TAIL
      else if n \<le> 0xC1 then UTF8_INVALID
      else if n \<le> 0xDF then UTF8_2
      else if n \<le> 0xEF then UTF8_3
      else if n \<le> 0xF4 then UTF8_4
      else UTF8_INVALID)"
    using n
    by (simp add: init_utf8_char_table_def fill_table_eq Let_def word_uint_eq_iff
        flip: n_def)
  then show ?thesis by (simp add: n_def)
qed

lemma init_utf8_char_table_flags [simp]:
  "is_binary (init_utf8_char_table g) = is_binary g"
  "is_utf8_conformant (init_utf8_char_table g) = is_utf8_conformant g"
  "nul_stat (init_utf8_char_table g) = nul_stat g"
  by (simp_all add: init_utf8_char_table_def Let_def)

subsection \<open>One turn of the loop, field by field\<close>

lemma note_non_text_table [simp]:
  "utf8_char_table (note_non_text P g i ch) = utf8_char_table g"
  by (simp add: note_non_text_def Let_def)

lemma note_non_text_conformant [simp]:
  "is_utf8_conformant (note_non_text P g i ch) = is_utf8_conformant g"
  by (simp add: note_non_text_def Let_def)

lemma note_non_text_binary:
  "is_binary (note_non_text P g i ch) = (is_binary g \<or> is_non_text P ch)"
  by (simp add: note_non_text_def Let_def)

lemma note_non_text_nul:
  "nul_stat (note_non_text P g i ch) =
     (if is_non_text P ch \<and> ch = NUL then nul_stat g OR is_odd_even i else nul_stat g)"
  by (auto simp add: note_non_text_def Let_def)

lemma utf8_check_table [simp]:
  "utf8_char_table (fst (utf8_check g st ch)) = utf8_char_table g"
  by (simp add: utf8_check_def Let_def)

lemma utf8_check_binary [simp]:
  "is_binary (fst (utf8_check g st ch)) = is_binary g"
  by (simp add: utf8_check_def Let_def)

lemma utf8_check_nul [simp]:
  "nul_stat (fst (utf8_check g st ch)) = nul_stat g"
  by (simp add: utf8_check_def Let_def)

lemma utf8_check_conformant:
  "is_utf8_conformant (fst (utf8_check g st ch)) =
     (is_utf8_conformant g \<and> fst (utf8_switch (utf8_char_table g ch) st))"
  by (simp add: utf8_check_def Let_def)

lemma utf8_check_state:
  "snd (utf8_check g st ch) =
     (if is_utf8_conformant g then snd (utf8_switch (utf8_char_table g ch) st) else st)"
  by (simp add: utf8_check_def Let_def)

lemma dbyte_step_other [simp]:
  "char_cnt (dbyte_step l ch) = char_cnt l"
  "pos (dbyte_step l ch) = pos l"
  "utf8_state (dbyte_step l ch) = utf8_state l"
  by (simp_all add: dbyte_step_def Let_def)

lemma dbyte_step_cong:
  "mp_dbyte_char_cnt (dbyte_step (l\<lparr>utf8_state := st, char_cnt := cc\<rparr>) ch) =
     mp_dbyte_char_cnt (dbyte_step l ch)"
  "dbyte_cnt (dbyte_step (l\<lparr>utf8_state := st, char_cnt := cc\<rparr>) ch) =
     dbyte_cnt (dbyte_step l ch)"
  "dbyte_hihi_cnt (dbyte_step (l\<lparr>utf8_state := st, char_cnt := cc\<rparr>) ch) =
     dbyte_hihi_cnt (dbyte_step l ch)"
  "last_ch (dbyte_step (l\<lparr>utf8_state := st, char_cnt := cc\<rparr>) ch) =
     last_ch (dbyte_step l ch)"
  by (simp_all add: dbyte_step_def Let_def)

lemma loop_body_globals:
  "utf8_char_table (fst (loop_body P s ch)) = utf8_char_table (fst s)"
  "is_binary (fst (loop_body P s ch)) = (is_binary (fst s) \<or> is_non_text P ch)"
  "nul_stat (fst (loop_body P s ch)) =
     (if is_non_text P ch \<and> ch = NUL then nul_stat (fst s) OR is_odd_even (pos (snd s))
      else nul_stat (fst s))"
  "is_utf8_conformant (fst (loop_body P s ch)) =
     (is_utf8_conformant (fst s) \<and>
      fst (utf8_switch (utf8_char_table (fst s) ch) (utf8_state (snd s))))"
  by (simp_all add: loop_body_def Let_def note_non_text_binary note_non_text_nul
      utf8_check_conformant)

lemma loop_body_locals:
  "utf8_state (snd (loop_body P s ch)) =
     (if is_utf8_conformant (fst s)
      then snd (utf8_switch (utf8_char_table (fst s) ch) (utf8_state (snd s)))
      else utf8_state (snd s))"
  "char_cnt (snd (loop_body P s ch)) = count_char (char_cnt (snd s)) ch"
  "pos (snd (loop_body P s ch)) = pos (snd s) + 1"
  "mp_dbyte_char_cnt (snd (loop_body P s ch)) = mp_dbyte_char_cnt (dbyte_step (snd s) ch)"
  "dbyte_cnt (snd (loop_body P s ch)) = dbyte_cnt (dbyte_step (snd s) ch)"
  "dbyte_hihi_cnt (snd (loop_body P s ch)) = dbyte_hihi_cnt (dbyte_step (snd s) ch)"
  "last_ch (snd (loop_body P s ch)) = last_ch (dbyte_step (snd s) ch)"
  by (simp_all add: loop_body_def Let_def utf8_check_state dbyte_step_cong)

lemma scan_loop_append:
  "scan_loop P s (xs @ ys) = scan_loop P (scan_loop P s xs) ys"
  by (induction xs arbitrary: s) simp_all

lemma scan_snoc: "scan P g (xs @ [ch]) = loop_body P (scan P g xs) ch"
  by (simp add: scan_def scan_loop_append)

lemma scan_Nil: "scan P g [] = (g, initial_locals)"
  by (simp add: scan_def)

subsection \<open>The statics across the scan\<close>

lemma is_non_text_NUL [simp]: "is_non_text P NUL"
  by (simp add: is_non_text_def NON_TEXT_CHARS_def NUL_def char_value_def)

lemma scan_loop_table [simp]:
  "utf8_char_table (fst (scan_loop P s buf)) = utf8_char_table (fst s)"
  by (induction buf arbitrary: s) (simp_all add: loop_body_globals)

lemma scan_loop_binary:
  "is_binary (fst (scan_loop P s buf)) =
     (is_binary (fst s) \<or> (\<exists>ch \<in> set buf. is_non_text P ch))"
  by (induction buf arbitrary: s) (auto simp: loop_body_globals)

lemma scan_loop_pos: "pos (snd (scan_loop P s buf)) = pos (snd s) + length buf"
  by (induction buf arbitrary: s) (simp_all add: loop_body_locals)

lemma scan_loop_nul:
  "nul_stat (fst (scan_loop P s buf)) = nul_stat (fst s) OR nul_offsets P (pos (snd s)) buf"
proof (induction buf arbitrary: s)
  case Nil
  show ?case by simp
next
  case (Cons ch rest)
  show ?case
    by (auto simp add: Cons.IH loop_body_globals loop_body_locals or.assoc)
qed

lemma scan_loop_sticky:
  "\<not> is_utf8_conformant (fst s) \<Longrightarrow> \<not> is_utf8_conformant (fst (scan_loop P s buf))"
  by (induction buf arbitrary: s) (simp_all add: loop_body_globals)

lemma scan_loop_utf8_same:
  assumes "utf8_char_table (fst s) = utf8_char_table (fst t)"
    and "is_utf8_conformant (fst s) = is_utf8_conformant (fst t)"
    and "utf8_state (snd s) = utf8_state (snd t)"
  shows "is_utf8_conformant (fst (scan_loop P s buf)) =
           is_utf8_conformant (fst (scan_loop P' t buf)) \<and>
         utf8_state (snd (scan_loop P s buf)) = utf8_state (snd (scan_loop P' t buf))"
  using assms
proof (induction buf arbitrary: s t)
  case Nil
  then show ?case by simp
next
  case (Cons ch rest)
  have "utf8_char_table (fst (loop_body P s ch)) = utf8_char_table (fst (loop_body P' t ch))"
    using Cons.prems by (simp add: loop_body_globals)
  moreover have "is_utf8_conformant (fst (loop_body P s ch)) =
      is_utf8_conformant (fst (loop_body P' t ch))"
    using Cons.prems by (simp add: loop_body_globals)
  moreover have "utf8_state (snd (loop_body P s ch)) = utf8_state (snd (loop_body P' t ch))"
    using Cons.prems by (simp add: loop_body_locals)
  ultimately show ?case
    using Cons.IH [of "loop_body P s ch" "loop_body P' t ch"] by simp
qed

subsection \<open>The digraph pairing does not depend on the statics\<close>

lemma dbyte_step_part:
  "digraph_part l = digraph_part l' \<Longrightarrow>
   digraph_part (dbyte_step l ch) = digraph_part (dbyte_step l' ch)"
  by (simp add: digraph_part_def dbyte_step_def Let_def)

lemma loop_body_part:
  "digraph_part (snd s) = digraph_part (snd t) \<Longrightarrow>
   digraph_part (snd (loop_body P s ch)) = digraph_part (snd (loop_body P' t ch))"
  using dbyte_step_part [of "snd s" "snd t" ch]
  by (simp add: digraph_part_def loop_body_locals)

lemma scan_loop_part:
  "digraph_part (snd s) = digraph_part (snd t) \<Longrightarrow>
   digraph_part (snd (scan_loop P s buf)) = digraph_part (snd (scan_loop P' t buf))"
proof (induction buf arbitrary: s t)
  case Nil
  then show ?case by simp
next
  case (Cons ch rest)
  show ?case
    using Cons.IH [OF loop_body_part [OF Cons.prems]] by simp
qed

lemma scan_part: "digraph_part (snd (scan P g buf)) = digraph_part (snd (scan P' g' buf))"
  unfolding scan_def by (rule scan_loop_part) simp

subsection \<open>The digraph step, field by field\<close>

lemma dbyte_step_fields:
  "mp_dbyte_char_cnt (dbyte_step l ch) =
     (if last_ch l \<noteq> EOF
      then map_incr (word_of_int (push_bit 8 (last_ch l) + uint ch)) (mp_dbyte_char_cnt l)
      else mp_dbyte_char_cnt l)"
  "dbyte_cnt (dbyte_step l ch) = (if last_ch l \<noteq> EOF then dbyte_cnt l + 1 else dbyte_cnt l)"
  "dbyte_hihi_cnt (dbyte_step l ch) =
     (if last_ch l \<noteq> EOF \<and> last_ch l > 0xa0 \<and> ch > 0xa0 then dbyte_hihi_cnt l + 1
      else dbyte_hihi_cnt l)"
  "last_ch (dbyte_step l ch) =
     (if last_ch l \<noteq> EOF then EOF else if ch \<ge> 0x80 then uint ch else last_ch l)"
  by (simp_all add: dbyte_step_def Let_def)

lemma initial_locals_fields:
  "char_cnt initial_locals = init_char_count"
  "mp_dbyte_char_cnt initial_locals = []"
  "dbyte_cnt initial_locals = 0"
  "dbyte_hihi_cnt initial_locals = 0"
  "pos initial_locals = 0"
  "last_ch initial_locals = EOF"
  "utf8_state initial_locals = 1"
  by (simp_all add: initial_locals_def)

lemma static_init_fields:
  "is_binary static_init = False"
  "is_utf8_conformant static_init = True"
  "nul_stat static_init = 0"
  by (simp_all add: static_init_def)

lemmas scan_eval =
  scan_def loop_body_globals loop_body_locals dbyte_step_fields
  initial_locals_fields static_init_fields utf8_char_table_init utf8_switch_def
  is_non_text_def NON_TEXT_CHARS_def char_value_def EOF_def NUL_def is_odd_even_def
  ODD_def EVEN_def

subsection \<open>The byte-order marks\<close>

lemma check_ucs_bom_utf8:
  assumes "take 3 buffer = [0xEF, 0xBB, 0xBF]"
  shows "check_ucs_bom buffer = Some ''utf-8''"
proof -
  obtain rest where "buffer = [0xEF, 0xBB, 0xBF] @ rest"
    using assms by (metis append_take_drop_id)
  then show ?thesis
    by (simp add: check_ucs_bom_def patterns_def memcmp_eq_def)
qed

lemma check_ucs_bom_names:
  "check_ucs_bom buffer = Some name \<Longrightarrow>
   name \<in> {''ucs-4'', ''ucs-4le'', ''utf-8'', ''utf-16'', ''utf-16le''}"
  by (auto simp: check_ucs_bom_def patterns_def split: if_splits)

lemma tellenc_bom:
  "length buffer > 4 \<Longrightarrow> check_ucs_bom buffer = Some name \<Longrightarrow>
   tellenc P g buffer = (Some name, g)"
  by (simp add: tellenc_def)

lemma tellenc_scan:
  "\<not> (length buffer > 4 \<and> check_ucs_bom buffer \<noteq> None) \<Longrightarrow>
   tellenc P g buffer = (decide P (fst (scan P g buffer)) (snd (scan P g buffer)),
     fst (scan P g buffer))"
  by (auto simp: tellenc_def Let_def)

lemma statics_at_call_fields:
  "is_binary statics_at_call = False"
  "is_utf8_conformant statics_at_call = True"
  "nul_stat statics_at_call = 0"
  "utf8_char_table statics_at_call = utf8_char_table (init_utf8_char_table static_init)"
  by (simp_all add: statics_at_call_def static_init_fields)

subsection \<open>Bytes from \<^verbatim>\<open>0x01\<close> to \<^verbatim>\<open>0x7F\<close>\<close>

lemma low_byte_class:
  assumes "1 \<le> b" and "b \<le> 0x7F"
  shows "utf8_char_table statics_at_call b = UTF8_1" and "\<not> b \<ge> 0x80"
proof -
  have "1 \<le> uint b" "uint b \<le> 0x7F"
    using assms by (simp_all add: word_le_def)
  then show "utf8_char_table statics_at_call b = UTF8_1"
    by (simp add: statics_at_call_fields utf8_char_table_init)
  show "\<not> b \<ge> 0x80"
    using \<open>uint b \<le> 0x7F\<close> by (simp add: word_le_def)
qed

lemma scan_loop_low_bytes:
  assumes "\<forall>b \<in> set buf. 1 \<le> b \<and> b \<le> 0x7F"
    and "utf8_char_table (fst s) = utf8_char_table statics_at_call"
    and "is_utf8_conformant (fst s)" and "utf8_state (snd s) = 1"
    and "last_ch (snd s) = EOF" and "dbyte_cnt (snd s) = 0"
  shows "is_utf8_conformant (fst (scan_loop P s buf)) \<and>
         utf8_state (snd (scan_loop P s buf)) = 1 \<and>
         last_ch (snd (scan_loop P s buf)) = EOF \<and>
         dbyte_cnt (snd (scan_loop P s buf)) = 0"
  using assms
proof (induction buf arbitrary: s)
  case Nil
  then show ?case by simp
next
  case (Cons ch rest)
  have ch: "utf8_char_table (fst s) ch = UTF8_1" "\<not> ch \<ge> 0x80"
    using low_byte_class [of ch] Cons.prems by simp_all
  have "is_utf8_conformant (fst (loop_body P s ch))"
    and "utf8_state (snd (loop_body P s ch)) = 1"
    and "last_ch (snd (loop_body P s ch)) = EOF"
    and "dbyte_cnt (snd (loop_body P s ch)) = 0"
    and "utf8_char_table (fst (loop_body P s ch)) = utf8_char_table statics_at_call"
    using Cons.prems ch
    by (simp_all add: loop_body_globals loop_body_locals dbyte_step_fields utf8_switch_def)
  then show ?case
    using Cons.IH [of "loop_body P s ch"] Cons.prems by simp
qed

lemma low_bytes_no_bom:
  assumes "\<forall>b \<in> set buffer. 1 \<le> b \<and> b \<le> 0x7F"
  shows "\<not> (length buffer > 4 \<and> check_ucs_bom buffer \<noteq> None)"
proof (cases buffer)
  case Nil
  then show ?thesis by simp
next
  case (Cons b rest)
  then have "1 \<le> uint b" "uint b \<le> 0x7F"
    using assms by (simp_all add: word_le_def)
  then have "b \<noteq> 0x00" "b \<noteq> 0xFF" "b \<noteq> 0xEF" "b \<noteq> 0xFE"
    by auto
  then have "check_ucs_bom buffer = None"
    using Cons by (simp add: check_ucs_bom_def patterns_def memcmp_eq_def)
  then show ?thesis by simp
qed

subsection \<open>The parity bits\<close>

lemma is_odd_even_eq: "is_odd_even i = (if odd i then ODD else EVEN)"
  by (simp add: is_odd_even_def Let_def and_one_eq mod_2_eq_odd)

lemma or_parity_closed:
  "a \<in> {0, ODD, EVEN, ODD OR EVEN} \<Longrightarrow> b \<in> {0, ODD, EVEN, ODD OR EVEN} \<Longrightarrow>
   a OR b \<in> {0, ODD, EVEN, ODD OR EVEN}"
  by (auto simp: ODD_def EVEN_def)

lemma nul_offsets_range: "nul_offsets P i buf \<in> {0, ODD, EVEN, ODD OR EVEN}"
proof (induction buf arbitrary: i)
  case Nil
  show ?case by simp
next
  case (Cons ch rest)
  have "(if is_non_text P ch \<and> ch = NUL then is_odd_even i else 0) \<in> {0, ODD, EVEN, ODD OR EVEN}"
    by (simp add: is_odd_even_eq)
  then show ?case
    using or_parity_closed [OF _ Cons.IH [of "i + 1"]] by simp
qed

lemma nul_offsets_bits:
  "nul_offsets P i buf =
     (if \<exists>j<length buf. buf ! j = NUL \<and> odd (i + j) then ODD else 0) OR
     (if \<exists>j<length buf. buf ! j = NUL \<and> even (i + j) then EVEN else 0)"
proof (induction buf arbitrary: i)
  case Nil
  show ?case by simp
next
  case (Cons ch rest)
  show ?case
    by (simp add: Cons.IH Ex_less_Suc2 is_odd_even_eq ODD_def EVEN_def) auto
qed

lemma scan_nul_stat:
  "nul_stat (fst (scan P g buf)) = nul_stat g OR nul_offsets P 0 buf"
  by (simp add: scan_def scan_loop_nul initial_locals_fields)

subsection \<open>The labels\<close>

lemma check_dbyte_names:
  "check_dbyte d = Some enc \<Longrightarrow> enc \<in> {''gbk'', ''big5''}"
  unfolding check_dbyte_def freq_analysis_data_def
  by (simp split: if_splits)

lemma check_freq_dbytes_from_names:
  "check_freq_dbytes_from es = Some enc \<Longrightarrow> enc \<in> {''gbk'', ''big5''}"
proof (induction es)
  case Nil
  then show ?case by simp
next
  case (Cons e es)
  then show ?case
    using check_dbyte_names [of "fst e"] by (auto split: option.splits)
qed

lemma check_freq_dbytes_names:
  "check_freq_dbytes v = Some enc \<Longrightarrow> enc \<in> {''gbk'', ''big5''}"
  using check_freq_dbytes_from_names by (simp add: check_freq_dbytes_def Let_def)

lemma decide_names:
  "decide P g l = Some enc \<Longrightarrow>
   enc \<in> {''utf-16le'', ''utf-16'', ''binary'', ''ascii'', ''utf-8'', ''latin1'', ''gb2312'',
     ''gbk'', ''big5''}"
  using check_freq_dbytes_names [of "sorted_dbyte_char_cnt P l" enc]
  by (auto simp: decide_def split: if_splits option.splits)

lemma tellenc_names:
  "fst (tellenc P g buffer) = Some enc \<Longrightarrow>
   enc \<in> {''ucs-4'', ''ucs-4le'', ''utf-8'', ''utf-16'', ''utf-16le'', ''ascii'', ''latin1'',
     ''gb2312'', ''gbk'', ''big5'', ''binary''}"
proof (cases "length buffer > 4 \<and> check_ucs_bom buffer \<noteq> None")
  case True
  then obtain name where n: "check_ucs_bom buffer = Some name" by auto
  assume "fst (tellenc P g buffer) = Some enc"
  then have "enc = name" using True n by (simp add: tellenc_bom)
  then show ?thesis using check_ucs_bom_names [OF n] by auto
next
  case False
  assume "fst (tellenc P g buffer) = Some enc"
  then have "decide P (fst (scan P g buffer)) (snd (scan P g buffer)) = Some enc"
    using False by (simp add: tellenc_scan)
  then show ?thesis using decide_names by fastforce
qed

lemmas decide_eval =
  tellenc_scan decide_def sorted_dbyte_char_cnt_def copy_entries_def check_freq_dbytes_def
  check_dbyte_def freq_analysis_data_def statics_at_call_fields main_output_def
  check_ucs_bom_def patterns_def memcmp_eq_def

subsection \<open>The histograms\<close>

lemma sum_count_char:
  "i < length (cc :: char_count_t list) \<Longrightarrow>
   sum_list (map snd (cc[i := (fst (cc ! i), snd (cc ! i) + 1)])) = sum_list (map snd cc) + 1"
proof (induction cc arbitrary: i)
  case Nil
  then show ?case by simp
next
  case (Cons c cc)
  then show ?case by (cases i) simp_all
qed

lemma count_char_sum:
  "length cc = MAX_CHAR \<Longrightarrow>
   length (count_char cc ch) = MAX_CHAR \<and>
   sum_list (map snd (count_char cc ch)) = sum_list (map snd cc) + 1"
proof -
  assume len: "length cc = MAX_CHAR"
  have "unat ch < 2 ^ 8" using unsigned_less [of ch] by simp
  then have "unat ch < length cc" using len by (simp add: MAX_CHAR_def)
  then show ?thesis
    using len sum_count_char [of "unat ch" cc] by (simp add: count_char_def)
qed

lemma init_char_count_sum:
  "length init_char_count = MAX_CHAR" "sum_list (map snd init_char_count) = 0"
  by (simp_all add: init_char_count_def comp_def)

lemma map_incr_sum: "sum_list (map snd (map_incr k m)) = sum_list (map snd m) + 1"
  by (induction k m rule: map_incr.induct) simp_all

lemma map_incr_filter_sum:
  "sum_list (map snd (filter (\<lambda>e. Q (fst e)) (map_incr k m))) =
     sum_list (map snd (filter (\<lambda>e. Q (fst e)) m)) + (if Q k then 1 else 0)"
  by (induction k m rule: map_incr.induct) simp_all

lemma map_incr_pos:
  "\<forall>e \<in> set m. 0 < snd e \<Longrightarrow> \<forall>e \<in> set (map_incr k m). 0 < snd e"
  by (induction k m rule: map_incr.induct) auto

lemma map_incr_keys: "fst ` set (map_incr k m) = insert k (fst ` set m)"
  by (induction k m rule: map_incr.induct) auto

lemma map_incr_sorted:
  "sorted_wrt (<) (map fst m) \<Longrightarrow> sorted_wrt (<) (map fst (map_incr k m))"
proof (induction k m rule: map_incr.induct)
  case (1 k)
  show ?case by simp
next
  case (2 k k' n m)
  show ?case
  proof (cases "k = k'")
    case True
    then show ?thesis using "2.prems" by simp
  next
    case False
    show ?thesis
    proof (cases "k < k'")
      case True
      then show ?thesis using "2.prems" \<open>k \<noteq> k'\<close> by auto
    next
      case ge: False
      then have "k' < k" using \<open>k \<noteq> k'\<close> by auto
      moreover have "sorted_wrt (<) (map fst (map_incr k m))"
        using "2.IH" [OF \<open>k \<noteq> k'\<close> ge] "2.prems" by simp
      moreover have "fst ` set (map_incr k m) = insert k (fst ` set m)"
        by (rule map_incr_keys)
      ultimately show ?thesis
        using "2.prems" \<open>k \<noteq> k'\<close> ge by auto
    qed
  qed
qed

lemma filter_sum_eq_all:
  assumes "\<forall>e \<in> set m. 0 < snd e"
  shows "sum_list (map snd (filter Q m)) \<le> sum_list (map snd (m :: char_count_t list)) \<and>
         (sum_list (map snd (filter Q m)) = sum_list (map snd m) \<longleftrightarrow> (\<forall>e \<in> set m. Q e))"
  using assms
proof (induction m)
  case Nil
  show ?case by simp
next
  case (Cons e m)
  then have IH: "sum_list (map snd (filter Q m)) \<le> sum_list (map snd m)"
    "sum_list (map snd (filter Q m)) = sum_list (map snd m) \<longleftrightarrow> (\<forall>e \<in> set m. Q e)"
    by simp_all
  have "0 < snd e" using Cons.prems by simp
  then show ?case using IH by auto
qed

lemma dbyte_key_bytes:
  assumes "0x80 \<le> p" and "p \<le> 0xFF"
  shows "both_above_a0 (word_of_int (push_bit 8 p + uint (ch :: uint8_t))) \<longleftrightarrow>
         p > 0xa0 \<and> ch > 0xa0"
proof -
  have c: "0 \<le> uint ch" "uint ch < 256"
    using uint_bounded [of ch] by simp_all
  have "0 \<le> p * 256 + uint ch" "p * 256 + uint ch < 65536"
    using assms c by simp_all
  moreover have "uint (word_of_int x :: uint16_t) = x" if "0 \<le> x" "x < 65536" for x
    using that by (simp add: uint_word_of_int_eq take_bit_int_eq_self)
  ultimately have u: "uint (word_of_int (p * 256 + uint ch) :: uint16_t) = p * 256 + uint ch"
    by blast
  have d: "(p * 256 + uint ch) div 256 = p" "(p * 256 + uint ch) mod 256 = uint ch"
    using c by simp_all
  have k: "push_bit 8 p + uint ch = p * 256 + uint ch"
    by (simp add: push_bit_eq_mult)
  have "both_above_a0 (word_of_int (push_bit 8 p + uint ch)) \<longleftrightarrow> p > 0xa0 \<and> uint ch > 0xa0"
    unfolding both_above_a0_def k u d ..
  then show ?thesis
    by (simp add: word_less_def)
qed

lemma scan_char_cnt:
  "length (char_cnt (snd (scan P g buf))) = MAX_CHAR \<and>
   sum_list (map snd (char_cnt (snd (scan P g buf)))) = length buf"
proof (induction buf rule: rev_induct)
  case Nil
  show ?case by (simp add: scan_Nil initial_locals_fields init_char_count_sum)
next
  case (snoc ch buf)
  then show ?case
    using count_char_sum [of "char_cnt (snd (scan P g buf))" ch]
    by (simp add: scan_snoc loop_body_locals)
qed

lemma scan_digraph_inv:
  fixes P g buf
  defines "l \<equiv> snd (scan P g buf)"
  shows "sum_list (map snd (mp_dbyte_char_cnt l)) = dbyte_cnt l \<and>
     sum_list (map snd (filter (\<lambda>e. both_above_a0 (fst e)) (mp_dbyte_char_cnt l))) =
       dbyte_hihi_cnt l \<and>
     (\<forall>e \<in> set (mp_dbyte_char_cnt l). 0 < snd e) \<and>
     (last_ch l = EOF \<or> 0x80 \<le> last_ch l \<and> last_ch l \<le> 0xFF) \<and>
     sorted_wrt (<) (map fst (mp_dbyte_char_cnt l)) \<and>
     2 * dbyte_cnt l + (if last_ch l = EOF then 0 else 1) \<le> length buf"
  unfolding l_def
proof (induction buf rule: rev_induct)
  case Nil
  show ?case by (simp add: scan_Nil initial_locals_fields)
next
  case (snoc ch buf)
  define l where "l = snd (scan P g buf)"
  define l' where "l' = snd (scan P g (buf @ [ch]))"
  have IH: "sum_list (map snd (mp_dbyte_char_cnt l)) = dbyte_cnt l"
    "sum_list (map snd (filter (\<lambda>e. both_above_a0 (fst e)) (mp_dbyte_char_cnt l))) =
       dbyte_hihi_cnt l"
    "\<forall>e \<in> set (mp_dbyte_char_cnt l). 0 < snd e"
    "last_ch l = EOF \<or> 0x80 \<le> last_ch l \<and> last_ch l \<le> 0xFF"
    "sorted_wrt (<) (map fst (mp_dbyte_char_cnt l))"
    "2 * dbyte_cnt l + (if last_ch l = EOF then 0 else 1) \<le> length buf"
    using snoc.IH by (simp_all add: l_def)
  have step: "mp_dbyte_char_cnt l' = mp_dbyte_char_cnt (dbyte_step l ch)"
    "dbyte_cnt l' = dbyte_cnt (dbyte_step l ch)"
    "dbyte_hihi_cnt l' = dbyte_hihi_cnt (dbyte_step l ch)"
    "last_ch l' = last_ch (dbyte_step l ch)"
    by (simp_all add: l'_def l_def scan_snoc loop_body_locals)
  have hi: "0x80 \<le> uint ch \<and> uint ch \<le> 0xFF" if "ch \<ge> 0x80"
    using that uint_bounded [of ch] by (simp add: word_le_def)
  show ?case
  proof (cases "last_ch l = EOF")
    case True
    then show ?thesis
      using IH hi unfolding l'_def [symmetric] step
      by (auto simp add: dbyte_step_fields EOF_def)
  next
    case False
    then have range: "0x80 \<le> last_ch l" "last_ch l \<le> 0xFF"
      using IH(4) by simp_all
    note key = dbyte_key_bytes [OF range, of ch]
    have "sum_list (map snd (mp_dbyte_char_cnt l')) = dbyte_cnt l'"
      unfolding step using False IH(1) by (simp add: dbyte_step_fields map_incr_sum)
    moreover have "sum_list (map snd (filter (\<lambda>e. both_above_a0 (fst e))
        (mp_dbyte_char_cnt l'))) = dbyte_hihi_cnt l'"
      unfolding step using False IH(2) key
      by (simp add: dbyte_step_fields map_incr_filter_sum)
    moreover have "\<forall>e \<in> set (mp_dbyte_char_cnt l'). 0 < snd e"
      unfolding step using False map_incr_pos [OF IH(3)]
      by (simp add: dbyte_step_fields)
    moreover have "last_ch l' = EOF"
      unfolding step using False by (simp add: dbyte_step_fields)
    moreover have "sorted_wrt (<) (map fst (mp_dbyte_char_cnt l'))"
      unfolding step using False map_incr_sorted [OF IH(5)]
      by (simp add: dbyte_step_fields)
    moreover have "2 * dbyte_cnt l' \<le> length (buf @ [ch])"
      unfolding step using False IH(6) by (simp add: dbyte_step_fields)
    ultimately show ?thesis
      unfolding l'_def [symmetric] by simp
  qed
qed

lemma wrapped_quotient:
  assumes "h \<le> (d :: nat)" and "0 < d"
  shows "(h * 100) mod m div d \<le> 100"
proof -
  have "(h * 100) mod m \<le> h * 100" by (rule mod_less_eq_dividend)
  also have "\<dots> \<le> 100 * d" using assms by simp
  finally have "(h * 100) mod m div d \<le> 100 * d div d"
    by (rule div_le_mono)
  then show ?thesis using assms by simp
qed




subsection \<open>The conformance flag\<close>

lemma scan_table [simp]: "utf8_char_table (fst (scan P g buf)) = utf8_char_table g"
  by (simp add: scan_def)

lemma scan_conformant_iff:
  "is_utf8_conformant (fst (scan P g buf)) \<longleftrightarrow>
     is_utf8_conformant g \<and>
     (\<forall>i<length buf. fst (utf8_switch (utf8_char_table g (buf ! i))
        (utf8_state (snd (scan P g (take i buf))))))"
proof (induction buf rule: rev_induct)
  case Nil
  show ?case by (simp add: scan_Nil)
next
  case (snoc ch buf)
  have "(\<forall>i<length (buf @ [ch]). fst (utf8_switch (utf8_char_table g ((buf @ [ch]) ! i))
        (utf8_state (snd (scan P g (take i (buf @ [ch]))))))) \<longleftrightarrow>
      (\<forall>i<length buf. fst (utf8_switch (utf8_char_table g (buf ! i))
        (utf8_state (snd (scan P g (take i buf)))))) \<and>
      fst (utf8_switch (utf8_char_table g ch) (utf8_state (snd (scan P g buf))))"
    by (auto simp add: All_less_Suc nth_append)
  then show ?case
    using snoc.IH by (auto simp add: scan_snoc loop_body_globals)
qed

lemma tellenc_statics:
  "snd (tellenc P g buffer) =
     (if length buffer > 4 \<and> check_ucs_bom buffer \<noteq> None then g else fst (scan P g buffer))"
  by (auto simp: tellenc_def Let_def)

subsection \<open>One call after another\<close>

lemma scan_binary:
  "is_binary (fst (scan P g buf)) = (is_binary g \<or> (\<exists>ch \<in> set buf. is_non_text P ch))"
  by (simp add: scan_def scan_loop_binary)

lemma scan_sticky: "\<not> is_utf8_conformant g \<Longrightarrow> \<not> is_utf8_conformant (fst (scan P g buf))"
  by (simp add: scan_def scan_loop_sticky)

lemma scan_char_cnt_same: "char_cnt (snd (scan P g buf)) = char_cnt (snd (scan P' g' buf))"
  by (induction buf rule: rev_induct) (simp_all add: scan_Nil scan_snoc loop_body_locals)

lemma nul_offsets_none:
  "\<not> (\<exists>ch \<in> set buf. is_non_text P ch) \<Longrightarrow> nul_offsets P i buf = 0"
  by (induction buf arbitrary: i) simp_all

lemma decide_cong:
  assumes "is_binary g = is_binary g'" and "is_utf8_conformant g = is_utf8_conformant g'"
    and "nul_stat g = nul_stat g'" and "digraph_part l = digraph_part l'"
  shows "decide P g l = decide P g' l'"
  using assms by (simp add: decide_def digraph_part_def sorted_dbyte_char_cnt_def)

lemma scan_twice:
  fixes P g buf
  defines "g1 \<equiv> fst (scan P g buf)"
  shows "is_binary (fst (scan P g1 buf)) = is_binary g1"
    and "nul_stat (fst (scan P g1 buf)) = nul_stat g1"
    and "is_utf8_conformant (fst (scan P g1 buf)) = is_utf8_conformant g1"
proof -
  show "is_binary (fst (scan P g1 buf)) = is_binary g1"
    by (auto simp add: g1_def scan_binary)
  show "nul_stat (fst (scan P g1 buf)) = nul_stat g1"
    by (simp add: g1_def scan_nul_stat or.assoc)
  show "is_utf8_conformant (fst (scan P g1 buf)) = is_utf8_conformant g1"
  proof (cases "is_utf8_conformant g1")
    case False
    then show ?thesis using scan_sticky [of g1 P buf] by simp
  next
    case True
    then have "is_utf8_conformant g"
      using scan_sticky [of g P buf] by (auto simp: g1_def)
    then have "is_utf8_conformant (fst (scan P g buf)) =
        is_utf8_conformant (fst (scan P g1 buf))"
      using True
        scan_loop_utf8_same [of "(g, initial_locals)" "(g1, initial_locals)" P buf P]
      by (simp add: scan_def g1_def)
    then show ?thesis by (simp add: g1_def)
  qed
qed

lemma tellenc_twice: "fst (tellenc P (snd (tellenc P g b)) b) = fst (tellenc P g b)"
proof (cases "length b > 4 \<and> check_ucs_bom b \<noteq> None")
  case True
  then obtain name where "check_ucs_bom b = Some name" by auto
  then show ?thesis using True by (simp add: tellenc_bom)
next
  case False
  have "decide P (fst (scan P (fst (scan P g b)) b)) (snd (scan P (fst (scan P g b)) b)) =
      decide P (fst (scan P g b)) (snd (scan P g b))"
    using scan_twice [of P g b] scan_part [of P "fst (scan P g b)" b P g]
    by (intro decide_cong) simp_all
  then show ?thesis
    by (simp add: tellenc_scan [OF False])
qed

lemma unchanged_statics:
  assumes "\<not> is_binary (snd (tellenc P statics_at_call b))"
    and "is_utf8_conformant (snd (tellenc P statics_at_call b))"
  shows "snd (tellenc P statics_at_call b) = statics_at_call"
proof (cases "length b > 4 \<and> check_ucs_bom b \<noteq> None")
  case True
  then show ?thesis by (simp add: tellenc_statics)
next
  case False
  then have s: "snd (tellenc P statics_at_call b) = fst (scan P statics_at_call b)"
    by (auto simp add: tellenc_statics)
  have "\<not> (\<exists>ch \<in> set b. is_non_text P ch)"
    using assms(1) by (simp add: s scan_binary)
  then have "nul_stat (fst (scan P statics_at_call b)) = 0"
    by (simp add: scan_nul_stat nul_offsets_none statics_at_call_fields)
  moreover have "\<not> is_binary (fst (scan P statics_at_call b))"
    "is_utf8_conformant (fst (scan P statics_at_call b))"
    using assms unfolding s by simp_all
  ultimately have "fst (scan P statics_at_call b) = statics_at_call"
    by (intro globals.equality) (simp_all add: statics_at_call_fields)
  then show ?thesis by (simp add: s)
qed

subsection \<open>The sorted histograms\<close>

text \<open>
  The byte histogram that is handed to \<^verbatim>\<open>std::sort\<close> holds each byte value once, in
  ascending order, with the number of times it occurs in the buffer. A sort that keeps
  the promise \<open>std_sort_post\<close> returns the counts in one sequence only; the two sorts of
  \<open>impl_a\<close> and \<open>impl_b\<close> keep the promise.
\<close>

lemma copy_entries_id [simp]: "copy_entries m = m"
proof -
  have "foldl (\<lambda>v e. v @ [e]) acc m = acc @ m" for acc :: "char_count_t list"
    by (induction m arbitrary: acc) simp_all
  then show ?thesis by (simp add: copy_entries_def)
qed

lemma byte_of_index:
  "i < 256 \<Longrightarrow> (word_of_nat i = (ch :: uint8_t)) = (i = unat ch)"
proof -
  assume "i < 256"
  then have "unat (word_of_nat i :: uint8_t) = i"
    by (simp add: unat_of_nat)
  then show ?thesis by auto
qed

lemma count_char_nth:
  assumes "i < 256"
  shows "count_char (map (\<lambda>i. (word_of_nat i :: uint16_t,
            count_list buf (word_of_nat i :: uint8_t))) [0..<256]) ch ! i =
         (word_of_nat i, count_list (buf @ [ch]) (word_of_nat i))"
proof (cases "i = unat ch")
  case True
  then have "(word_of_nat i :: uint8_t) = ch" by simp
  then show ?thesis
    using assms True by (simp add: count_char_def)
next
  case False
  then have "(word_of_nat i :: uint8_t) \<noteq> ch"
    using byte_of_index [OF assms, of ch] by simp
  then show ?thesis
    using assms False by (simp add: count_char_def)
qed

lemma scan_char_cnt_eq:
  "char_cnt (snd (scan P g buf)) =
     map (\<lambda>i. (word_of_nat i, count_list buf (word_of_nat i))) [0..<256]"
proof (induction buf rule: rev_induct)
  case Nil
  show ?case
    by (simp add: scan_Nil initial_locals_fields init_char_count_def MAX_CHAR_def)
next
  case (snoc ch buf)
  show ?case
    unfolding scan_snoc loop_body_locals snoc.IH
  proof (rule nth_equalityI)
    show "length (count_char (map (\<lambda>i. (word_of_nat i :: uint16_t,
        count_list buf (word_of_nat i :: uint8_t))) [0..<256]) ch) =
      length (map (\<lambda>i. (word_of_nat i :: uint16_t,
        count_list (buf @ [ch]) (word_of_nat i :: uint8_t))) [0..<256])"
      by (simp add: count_char_def)
  next
    fix i
    assume "i < length (count_char (map (\<lambda>i. (word_of_nat i :: uint16_t,
        count_list buf (word_of_nat i :: uint8_t))) [0..<256]) ch)"
    then have i: "i < 256" by (simp add: count_char_def)
    show "count_char (map (\<lambda>i. (word_of_nat i :: uint16_t,
        count_list buf (word_of_nat i :: uint8_t))) [0..<256]) ch ! i =
      map (\<lambda>i. (word_of_nat i :: uint16_t,
        count_list (buf @ [ch]) (word_of_nat i :: uint8_t))) [0..<256] ! i"
      using i count_char_nth [OF i, of buf ch] by simp
  qed
qed

lemma not_greater_char_count: "(\<not> greater_char_count b a) = (snd b \<le> snd a)"
  by (simp add: greater_char_count_def not_less)

lemma std_sort_post_desc:
  "std_sort_post xs ys \<Longrightarrow> sorted_wrt (\<lambda>a b. snd a \<ge> snd b) ys"
  by (simp add: std_sort_post_def not_greater_char_count)

lemma std_sort_post_counts:
  assumes "std_sort_post xs ys" and "std_sort_post xs zs"
  shows "map snd ys = map snd zs"
proof -
  have asc: "sorted (rev (map snd us))" if "std_sort_post xs us" for us
    using std_sort_post_desc [OF that]
    by (simp add: sorted_wrt_rev sorted_wrt_map)
  have ms: "mset (rev (map snd us)) = mset (map snd xs)" if "std_sort_post xs us" for us
    using that by (simp add: std_sort_post_def)
  have "sort (map snd xs) = rev (map snd us)" if "std_sort_post xs us" for us
    using properties_for_sort [OF ms [OF that] asc [OF that]] .
  then have "rev (map snd ys) = rev (map snd zs)"
    using assms by metis
  then show ?thesis by simp
qed

lemma impl_a_sort_post: "std_sort_post xs (std_sort impl_a xs)"
proof -
  have "sorted (map snd (sort_key snd (rev xs)))"
    by (rule sorted_sort_key)
  then have "sorted_wrt (\<lambda>a b. snd a \<le> snd b) (sort_key snd (rev xs))"
    by (simp add: sorted_map)
  then show ?thesis
    by (simp add: std_sort_post_def impl_a_def not_greater_char_count sorted_wrt_rev)
qed

lemma impl_b_sort_post: "std_sort_post xs (std_sort impl_b xs)"
proof -
  have "sorted (map snd (sort_key snd xs))"
    by (rule sorted_sort_key)
  then have "sorted_wrt (\<lambda>a b. snd a \<le> snd b) (sort_key snd xs)"
    by (simp add: sorted_map)
  then show ?thesis
    by (simp add: std_sort_post_def impl_b_def not_greater_char_count sorted_wrt_rev)
qed

section \<open>The claims\<close>

text \<open>
  C1, amended. A buffer of more than four bytes that begins with \<^verbatim>\<open>EF BB BF\<close> is labelled
  \<^verbatim>\<open>utf-8\<close> whatever its other bytes are and whatever the statics hold, and the statics are
  left as they were: the match returns before the scan. The source makes the check only
  when \<^verbatim>\<open>len > 4\<close>. The buffer of exactly these three bytes is scanned, and from the statics
  of \<^verbatim>\<open>main\<close> the scan labels it \<^verbatim>\<open>utf-8\<close> as well.
\<close>

theorem bom_utf8_short_circuit:
  "(length buffer > 4 \<and> take 3 buffer = [0xEF, 0xBB, 0xBF] \<longrightarrow>
      tellenc P g buffer = (Some ''utf-8'', g)) \<and>
   fst (tellenc P statics_at_call [0xEF, 0xBB, 0xBF]) = Some ''utf-8''"
proof
  show "length buffer > 4 \<and> take 3 buffer = [0xEF, 0xBB, 0xBF] \<longrightarrow>
      tellenc P g buffer = (Some ''utf-8'', g)"
    by (simp add: tellenc_bom check_ucs_bom_utf8)
  show "fst (tellenc P statics_at_call [0xEF, 0xBB, 0xBF]) = Some ''utf-8''"
    by (simp add: tellenc_scan decide_def statics_at_call_fields scan_eval)
qed

theorem bom_utf8_short_circuit_witness:
  "length [0xEF, 0xBB, 0xBF, 0xFF, 0x00 :: uint8_t] > 4 \<and>
   take 3 [0xEF, 0xBB, 0xBF, 0xFF, 0x00 :: uint8_t] = [0xEF, 0xBB, 0xBF] \<and>
   tellenc impl_a statics_at_call [0xEF, 0xBB, 0xBF, 0xFF, 0x00] =
     (Some ''utf-8'', statics_at_call)"
  using bom_utf8_short_circuit [of "[0xEF, 0xBB, 0xBF, 0xFF, 0x00]" impl_a statics_at_call]
  by simp

text \<open>
  C1 as stated fails at length four: the buffer \<^verbatim>\<open>EF BB BF 00\<close> begins with the mark and is
  labelled \<^verbatim>\<open>utf-16le\<close>.
\<close>

theorem bom_utf8_length_four_counterexample:
  "take 3 [0xEF, 0xBB, 0xBF, 0x00 :: uint8_t] = [0xEF, 0xBB, 0xBF] \<and>
   fst (tellenc impl_a statics_at_call [0xEF, 0xBB, 0xBF, 0x00]) = Some ''utf-16le'' \<and>
   fst (tellenc impl_a statics_at_call [0xEF, 0xBB, 0xBF, 0x00]) \<noteq> Some ''utf-8''"
  by (simp add: tellenc_scan decide_def statics_at_call_fields scan_eval)

text \<open>
  C9. From the statics that \<^verbatim>\<open>main\<close> sets up, a buffer all of whose bytes lie between
  \<^verbatim>\<open>0x01\<close> and \<^verbatim>\<open>0x7F\<close>, the empty buffer among them, is labelled \<^verbatim>\<open>ascii\<close>: the scan forms
  no digraph, and the conformance flag is still set, so the second rule decides.
\<close>

theorem low_bytes_ascii:
  assumes "\<forall>b \<in> set buffer. 1 \<le> b \<and> b \<le> 0x7F"
  shows "fst (tellenc P statics_at_call buffer) = Some ''ascii'' \<and>
         dbyte_cnt (snd (scan P statics_at_call buffer)) = 0 \<and>
         main_output P buffer = ''ascii''"
proof -
  have s: "is_utf8_conformant (fst (scan P statics_at_call buffer))"
    "dbyte_cnt (snd (scan P statics_at_call buffer)) = 0"
    using scan_loop_low_bytes [OF assms, of "(statics_at_call, initial_locals)" P]
    by (simp_all add: scan_def statics_at_call_fields initial_locals_fields)
  have "fst (tellenc P statics_at_call buffer) = Some ''ascii''"
    using s by (simp add: tellenc_scan [OF low_bytes_no_bom [OF assms]] decide_def)
  then show ?thesis
    using s by (simp add: main_output_def)
qed

theorem low_bytes_ascii_witness:
  "fst (tellenc impl_a statics_at_call []) = Some ''ascii'' \<and>
   main_output impl_a [] = ''ascii'' \<and>
   fst (tellenc impl_b statics_at_call [0x48, 0x1A, 0x7F, 0x01, 0x69, 0x21]) = Some ''ascii'' \<and>
   dbyte_cnt (snd (scan impl_b statics_at_call [0x48, 0x1A, 0x7F, 0x01, 0x69, 0x21])) = 0 \<and>
   main_output impl_b [0x48, 0x1A, 0x7F, 0x01, 0x69, 0x21] = ''ascii''"
  using low_bytes_ascii [of "[]" impl_a]
    low_bytes_ascii [of "[0x48, 0x1A, 0x7F, 0x01, 0x69, 0x21]" impl_b]
  by simp

text \<open>
  C6. When the scan ends with the conformance flag cleared and the binary flag set, the
  label is read off \<^verbatim>\<open>nul_stat\<close> alone: \<^verbatim>\<open>ODD\<close> gives \<^verbatim>\<open>utf-16le\<close>, \<^verbatim>\<open>EVEN\<close> gives
  \<^verbatim>\<open>utf-16\<close>, anything else \<^verbatim>\<open>binary\<close>. From the statics of \<^verbatim>\<open>main\<close>, \<^verbatim>\<open>nul_stat\<close> holds
  the bit \<^verbatim>\<open>ODD\<close> exactly if a NUL byte stands at an odd offset and the bit \<^verbatim>\<open>EVEN\<close> exactly
  if one stands at an even offset, so "anything else" is neither bit or both. The buffer
  \<^verbatim>\<open>FF 00 FF 00\<close> is labelled \<^verbatim>\<open>utf-16le\<close>.
\<close>

theorem rule1_nul_parity:
  "(\<not> (length buffer > 4 \<and> check_ucs_bom buffer \<noteq> None) \<and>
    \<not> is_utf8_conformant (fst (scan P g buffer)) \<and> is_binary (fst (scan P g buffer)) \<longrightarrow>
      fst (tellenc P g buffer) =
        Some (if nul_stat (fst (scan P g buffer)) = ODD then ''utf-16le''
              else if nul_stat (fst (scan P g buffer)) = EVEN then ''utf-16''
              else ''binary'')) \<and>
   nul_stat (fst (scan P statics_at_call buffer)) =
     (if \<exists>j<length buffer. buffer ! j = NUL \<and> odd j then ODD else 0) OR
     (if \<exists>j<length buffer. buffer ! j = NUL \<and> even j then EVEN else 0) \<and>
   fst (tellenc P statics_at_call [0xFF, 0x00, 0xFF, 0x00]) = Some ''utf-16le''"
proof (intro conjI impI)
  assume "\<not> (length buffer > 4 \<and> check_ucs_bom buffer \<noteq> None) \<and>
    \<not> is_utf8_conformant (fst (scan P g buffer)) \<and> is_binary (fst (scan P g buffer))"
  then show "fst (tellenc P g buffer) =
        Some (if nul_stat (fst (scan P g buffer)) = ODD then ''utf-16le''
              else if nul_stat (fst (scan P g buffer)) = EVEN then ''utf-16''
              else ''binary'')"
    by (simp add: tellenc_scan decide_def)
next
  show "nul_stat (fst (scan P statics_at_call buffer)) =
     (if \<exists>j<length buffer. buffer ! j = NUL \<and> odd j then ODD else 0) OR
     (if \<exists>j<length buffer. buffer ! j = NUL \<and> even j then EVEN else 0)"
    using nul_offsets_bits [of P 0 buffer]
    by (simp add: scan_nul_stat statics_at_call_fields)
next
  show "fst (tellenc P statics_at_call [0xFF, 0x00, 0xFF, 0x00]) = Some ''utf-16le''"
    by (simp add: decide_eval scan_eval)
qed

theorem rule1_nul_parity_witness:
  "fst (tellenc impl_a statics_at_call [0xFF, 0x00, 0xFF, 0x00]) = Some ''utf-16le'' \<and>
   nul_stat (fst (scan impl_a statics_at_call [0xFF, 0x00, 0xFF, 0x00])) = ODD \<and>
   fst (tellenc impl_a statics_at_call [0x00, 0xFF]) = Some ''utf-16'' \<and>
   nul_stat (fst (scan impl_a statics_at_call [0x00, 0xFF])) = EVEN \<and>
   fst (tellenc impl_a statics_at_call [0x00, 0x00]) = Some ''binary'' \<and>
   nul_stat (fst (scan impl_a statics_at_call [0x00, 0x00])) = ODD OR EVEN \<and>
   fst (tellenc impl_a statics_at_call [0xC0, 0x1A]) = Some ''binary'' \<and>
   nul_stat (fst (scan impl_a statics_at_call [0xC0, 0x1A])) = 0"
  using rule1_nul_parity [of "[0xFF, 0x00, 0xFF, 0x00]" impl_a statics_at_call]
    rule1_nul_parity [of "[0x00, 0xFF]" impl_a statics_at_call]
    rule1_nul_parity [of "[0x00, 0x00]" impl_a statics_at_call]
    rule1_nul_parity [of "[0xC0, 0x1A]" impl_a statics_at_call]
  by (simp add: decide_eval scan_eval impl_a_def)

text \<open>
  C4, amended. \<^verbatim>\<open>tellenc\<close> returns for every buffer and every content of the statics.
  What it returns is one of eleven names or \<^verbatim>\<open>NULL\<close>; it never returns the name
  \<^verbatim>\<open>unknown\<close>. \<^verbatim>\<open>main\<close> writes the name returned, and \<^verbatim>\<open>unknown\<close> for \<^verbatim>\<open>NULL\<close>: the line
  it writes is one of the twelve labels, and it is \<^verbatim>\<open>unknown\<close> exactly if \<^verbatim>\<open>tellenc\<close> has
  returned \<^verbatim>\<open>NULL\<close>.
\<close>

theorem classification_total:
  "fst (tellenc P g buffer) \<in>
     {None, Some ''ucs-4'', Some ''ucs-4le'', Some ''utf-8'', Some ''utf-16'', Some ''utf-16le'',
      Some ''ascii'', Some ''latin1'', Some ''gb2312'', Some ''gbk'', Some ''big5'',
      Some ''binary''} \<and>
   fst (tellenc P g buffer) \<noteq> Some ''unknown'' \<and>
   main_output P buffer \<in>
     {''ucs-4'', ''ucs-4le'', ''utf-8'', ''utf-16'', ''utf-16le'', ''ascii'', ''latin1'',
      ''gb2312'', ''gbk'', ''big5'', ''binary'', ''unknown''} \<and>
   (main_output P buffer = ''unknown'') = (fst (tellenc P statics_at_call buffer) = None)"
proof -
  have names: "fst (tellenc P g' buffer) \<in>
     {None, Some ''ucs-4'', Some ''ucs-4le'', Some ''utf-8'', Some ''utf-16'', Some ''utf-16le'',
      Some ''ascii'', Some ''latin1'', Some ''gb2312'', Some ''gbk'', Some ''big5'',
      Some ''binary''}" for g'
  proof (cases "fst (tellenc P g' buffer)")
    case None
    then show ?thesis by simp
  next
    case (Some enc)
    then show ?thesis using tellenc_names [OF Some] by auto
  qed
  have "fst (tellenc P g buffer) \<noteq> Some ''unknown''"
    using names [of g] by auto
  moreover have "main_output P buffer \<in>
     {''ucs-4'', ''ucs-4le'', ''utf-8'', ''utf-16'', ''utf-16le'', ''ascii'', ''latin1'',
      ''gb2312'', ''gbk'', ''big5'', ''binary'', ''unknown''}"
    using names [of statics_at_call] by (auto simp add: main_output_def)
  moreover have "(main_output P buffer = ''unknown'') =
      (fst (tellenc P statics_at_call buffer) = None)"
    using names [of statics_at_call] by (auto simp add: main_output_def)
  ultimately show ?thesis
    using names [of g] by blast
qed

theorem classification_total_witness:
  "fst (tellenc impl_b statics_at_call []) = Some ''ascii'' \<and>
   main_output impl_b [] = ''ascii'' \<and>
   fst (tellenc impl_b statics_at_call [0x68, 0xC3, 0xA9, 0x6C, 0x6C, 0x6F]) = Some ''utf-8'' \<and>
   main_output impl_a [0xB0, 0xB1, 0xB0, 0x41] = ''unknown''"
  using classification_total [of impl_b statics_at_call "[]"]
    classification_total [of impl_a statics_at_call "[0xB0, 0xB1, 0xB0, 0x41]"]
  by (simp add: decide_eval scan_eval impl_a_def impl_b_def numeral_2_eq_2 [symmetric])

text \<open>
  C4 as stated fails: for the buffer \<^verbatim>\<open>B0 B1 B0 41\<close> no rule matches and \<^verbatim>\<open>tellenc\<close>
  returns \<^verbatim>\<open>NULL\<close>, not the name \<^verbatim>\<open>unknown\<close>.
\<close>

theorem null_result_counterexample:
  "fst (tellenc impl_a statics_at_call [0xB0, 0xB1, 0xB0, 0x41]) = None \<and>
   fst (tellenc impl_a statics_at_call [0xB0, 0xB1, 0xB0, 0x41]) \<noteq> Some ''unknown''"
  by (simp add: decide_eval scan_eval impl_a_def numeral_2_eq_2 [symmetric])

text \<open>
  C8. After the scan the byte histogram has its 256 entries and their counts add up to
  the length of the buffer, and the counts of the digraph histogram add up to
  \<^verbatim>\<open>dbyte_cnt\<close>, the number of digraphs the scan has formed.
\<close>

theorem histogram_sums:
  "length (char_cnt (snd (scan P g buffer))) = 256 \<and>
   sum_list (map snd (char_cnt (snd (scan P g buffer)))) = length buffer \<and>
   sum_list (map snd (mp_dbyte_char_cnt (snd (scan P g buffer)))) =
     dbyte_cnt (snd (scan P g buffer))"
  using scan_char_cnt [of P g buffer] scan_digraph_inv [of P g buffer]
  by (simp add: MAX_CHAR_def)

theorem histogram_sums_witness:
  "sum_list (map snd (char_cnt (snd (scan impl_a statics_at_call [0xB0, 0xB1, 0x41, 0xB0, 0xB1])))) = 5 \<and>
   sum_list (map snd (mp_dbyte_char_cnt (snd (scan impl_a statics_at_call [0xB0, 0xB1, 0x41, 0xB0, 0xB1])))) = 2 \<and>
   mp_dbyte_char_cnt (snd (scan impl_a statics_at_call [0xB0, 0xB1, 0x41, 0xB0, 0xB1])) = [(0xB0B1, 2)] \<and>
   dbyte_cnt (snd (scan impl_a statics_at_call [0xB0, 0xB1, 0x41, 0xB0, 0xB1])) = 2"
  using histogram_sums [of impl_a statics_at_call "[0xB0, 0xB1, 0x41, 0xB0, 0xB1]"]
  by (simp add: scan_eval numeral_2_eq_2 [symmetric])

text \<open>
  C10. The count of digraphs with both bytes above \<^verbatim>\<open>0xA0\<close> never exceeds the count of
  digraphs. So when the fourth rule is reached with a digraph counted, the quotient it
  forms, also with the product reduced to the range of \<^verbatim>\<open>size_t\<close>, is at most 100; and the
  test of the fifth rule holds exactly if every digraph entered in the histogram has
  both bytes above \<^verbatim>\<open>0xA0\<close>.
\<close>

theorem hihi_bounded:
  assumes "l = snd (scan P g buffer)"
  shows "dbyte_hihi_cnt l \<le> dbyte_cnt l \<and>
    (0 < dbyte_cnt l \<longrightarrow>
       dbyte_hihi_cnt l * 100 div dbyte_cnt l \<le> 100 \<and>
       (dbyte_hihi_cnt l * 100) mod 2 ^ size_t_bits P div dbyte_cnt l \<le> 100) \<and>
    (dbyte_hihi_cnt l = dbyte_cnt l \<longleftrightarrow>
       (\<forall>e \<in> set (mp_dbyte_char_cnt l). both_above_a0 (fst e)))"
proof -
  note inv = scan_digraph_inv [of P g buffer, folded assms]
  have pos: "\<forall>e \<in> set (mp_dbyte_char_cnt l). 0 < snd e"
    using inv by simp
  note f = filter_sum_eq_all [OF pos, of "\<lambda>e. both_above_a0 (fst e)"]
  have le: "dbyte_hihi_cnt l \<le> dbyte_cnt l"
    using f inv by simp
  have eq: "dbyte_hihi_cnt l = dbyte_cnt l \<longleftrightarrow>
      (\<forall>e \<in> set (mp_dbyte_char_cnt l). both_above_a0 (fst e))"
    using f inv by simp
  have q: "dbyte_hihi_cnt l * 100 div dbyte_cnt l \<le> 100" if "0 < dbyte_cnt l"
  proof -
    have "dbyte_hihi_cnt l * 100 div dbyte_cnt l \<le> 100 * dbyte_cnt l div dbyte_cnt l"
      using le by (intro div_le_mono) simp
    then show ?thesis using that by simp
  qed
  show ?thesis
    using le eq q wrapped_quotient [OF le] by blast
qed

theorem hihi_bounded_witness:
  "dbyte_hihi_cnt (snd (scan impl_a statics_at_call [0xB0, 0xB1, 0xB0, 0x41])) = 1 \<and>
   dbyte_cnt (snd (scan impl_a statics_at_call [0xB0, 0xB1, 0xB0, 0x41])) = 2 \<and>
   mp_dbyte_char_cnt (snd (scan impl_a statics_at_call [0xB0, 0xB1, 0xB0, 0x41])) =
     [(0xB041, 1), (0xB0B1, 1)] \<and>
   \<not> both_above_a0 0xB041 \<and> both_above_a0 0xB0B1 \<and>
   dbyte_hihi_cnt (snd (scan impl_b statics_at_call [0xB0, 0xB1, 0xB2, 0xB3])) = 2 \<and>
   dbyte_cnt (snd (scan impl_b statics_at_call [0xB0, 0xB1, 0xB2, 0xB3])) = 2"
  using hihi_bounded [of "snd (scan impl_a statics_at_call [0xB0, 0xB1, 0xB0, 0x41])"
      impl_a statics_at_call "[0xB0, 0xB1, 0xB0, 0x41]"]
    hihi_bounded [of "snd (scan impl_b statics_at_call [0xB0, 0xB1, 0xB2, 0xB3])"
      impl_b statics_at_call "[0xB0, 0xB1, 0xB2, 0xB3]"]
  by (simp add: scan_eval both_above_a0_def numeral_2_eq_2 [symmetric])




text \<open>
  C5. The conformance flag is set after the scan exactly if it was set before and the
  switch accepted every byte in the state the bytes before it had left. The state in
  which the buffer ends plays no part: a buffer that ends inside a sequence, such as one
  whose last byte is a lead byte accepted in the state \<^verbatim>\<open>UTF8_1\<close>, keeps the flag, and
  \<^verbatim>\<open>tellenc\<close> leaves it set in the statics.
\<close>

theorem utf8_truncation_not_flagged:
  "(is_utf8_conformant (fst (scan P g buffer)) \<longleftrightarrow>
      is_utf8_conformant g \<and>
      (\<forall>i<length buffer. fst (utf8_switch (utf8_char_table g (buffer ! i))
         (utf8_state (snd (scan P g (take i buffer))))))) \<and>
   (is_utf8_conformant g \<and>
    (\<forall>i<length buffer. fst (utf8_switch (utf8_char_table g (buffer ! i))
         (utf8_state (snd (scan P g (take i buffer)))))) \<longrightarrow>
      is_utf8_conformant (snd (tellenc P g buffer))) \<and>
   (is_utf8_conformant (fst (scan P g buffer)) \<and>
    utf8_state (snd (scan P g buffer)) = enum_val UTF8_1 \<and>
    utf8_char_table g c \<in> {UTF8_2, UTF8_3, UTF8_4} \<longrightarrow>
      is_utf8_conformant (fst (scan P g (buffer @ [c]))) \<and>
      utf8_state (snd (scan P g (buffer @ [c]))) > enum_val UTF8_1)"
proof (intro conjI impI)
  show "is_utf8_conformant (fst (scan P g buffer)) \<longleftrightarrow>
      is_utf8_conformant g \<and>
      (\<forall>i<length buffer. fst (utf8_switch (utf8_char_table g (buffer ! i))
         (utf8_state (snd (scan P g (take i buffer))))))"
    by (rule scan_conformant_iff)
next
  assume "is_utf8_conformant g \<and>
    (\<forall>i<length buffer. fst (utf8_switch (utf8_char_table g (buffer ! i))
         (utf8_state (snd (scan P g (take i buffer))))))"
  then show "is_utf8_conformant (snd (tellenc P g buffer))"
    using scan_conformant_iff [of P g buffer] by (simp add: tellenc_statics)
next
  assume a: "is_utf8_conformant (fst (scan P g buffer)) \<and>
    utf8_state (snd (scan P g buffer)) = enum_val UTF8_1 \<and>
    utf8_char_table g c \<in> {UTF8_2, UTF8_3, UTF8_4}"
  then show "is_utf8_conformant (fst (scan P g (buffer @ [c])))"
    by (auto simp add: scan_snoc loop_body_globals utf8_switch_def)
  from a show "utf8_state (snd (scan P g (buffer @ [c]))) > enum_val UTF8_1"
    by (auto simp add: scan_snoc loop_body_locals utf8_switch_def)
qed

theorem utf8_truncation_not_flagged_witness:
  "is_utf8_conformant (fst (scan impl_a statics_at_call [0x41, 0xE4, 0xB8])) \<and>
   utf8_state (snd (scan impl_a statics_at_call [0x41, 0xE4, 0xB8])) = enum_val UTF8_2 \<and>
   is_utf8_conformant (snd (tellenc impl_a statics_at_call [0x41, 0xE4, 0xB8])) \<and>
   fst (tellenc impl_a statics_at_call [0x41, 0xE4, 0xB8]) = Some ''utf-8'' \<and>
   utf8_state (snd (scan impl_a statics_at_call [0x41])) = enum_val UTF8_1 \<and>
   is_utf8_conformant (fst (scan impl_a statics_at_call [0x41, 0xC3])) \<and>
   utf8_state (snd (scan impl_a statics_at_call [0x41, 0xC3])) = enum_val UTF8_2"
  using utf8_truncation_not_flagged [of impl_a statics_at_call "[0x41, 0xE4, 0xB8]" "0xC3"]
    utf8_truncation_not_flagged [of impl_a statics_at_call "[0x41]" "0xC3"]
  by (simp add: decide_eval scan_eval)

text \<open>
  C2, amended. The histograms, the digraph counters and the pending byte are set up anew
  by every call and do not depend on the statics. \<^verbatim>\<open>is_binary\<close>, \<^verbatim>\<open>is_utf8_conformant\<close> and
  \<^verbatim>\<open>nul_stat\<close> are statics: a call starts from what the call before left and never resets
  them, so a binary flag that is set stays set, a conformance flag that is cleared stays
  cleared, and a parity bit that is set stays set. A call on a second buffer gives the
  label of that buffer alone if the first call left the binary flag clear and the
  conformance flag set (then it left all the statics as \<^verbatim>\<open>main\<close> set them up), in
  particular if the first buffer matched a byte-order mark, which returns before the
  scan. Two calls in a row on the same buffer return the same label.
\<close>

theorem statics_persist:
  "fst (tellenc P (snd (tellenc P g b)) b) = fst (tellenc P g b) \<and>
   char_cnt (snd (scan P g b)) = char_cnt (snd (scan P g' b)) \<and>
   digraph_part (snd (scan P g b)) = digraph_part (snd (scan P g' b)) \<and>
   (is_binary g \<longrightarrow> is_binary (snd (tellenc P g b))) \<and>
   (\<not> is_utf8_conformant g \<longrightarrow> \<not> is_utf8_conformant (snd (tellenc P g b))) \<and>
   nul_stat (snd (tellenc P g b)) OR nul_stat g = nul_stat (snd (tellenc P g b)) \<and>
   (\<not> is_binary (snd (tellenc P statics_at_call b1)) \<and>
    is_utf8_conformant (snd (tellenc P statics_at_call b1)) \<longrightarrow>
      snd (tellenc P statics_at_call b1) = statics_at_call \<and>
      tellenc P (snd (tellenc P statics_at_call b1)) b2 = tellenc P statics_at_call b2) \<and>
   (length b1 > 4 \<and> check_ucs_bom b1 \<noteq> None \<longrightarrow> snd (tellenc P g b1) = g)"
proof (intro conjI impI)
  show "fst (tellenc P (snd (tellenc P g b)) b) = fst (tellenc P g b)"
    by (rule tellenc_twice)
  show "char_cnt (snd (scan P g b)) = char_cnt (snd (scan P g' b))"
    by (rule scan_char_cnt_same)
  show "digraph_part (snd (scan P g b)) = digraph_part (snd (scan P g' b))"
    by (rule scan_part)
  show "nul_stat (snd (tellenc P g b)) OR nul_stat g = nul_stat (snd (tellenc P g b))"
    by (simp add: tellenc_statics scan_nul_stat or.commute or.left_commute)
next
  assume "is_binary g"
  then show "is_binary (snd (tellenc P g b))"
    by (simp add: tellenc_statics scan_binary)
next
  assume "\<not> is_utf8_conformant g"
  then show "\<not> is_utf8_conformant (snd (tellenc P g b))"
    using scan_sticky [of g P b] by (simp add: tellenc_statics)
next
  assume a: "\<not> is_binary (snd (tellenc P statics_at_call b1)) \<and>
    is_utf8_conformant (snd (tellenc P statics_at_call b1))"
  then show u: "snd (tellenc P statics_at_call b1) = statics_at_call"
    using unchanged_statics [of P b1] by simp
  show "tellenc P (snd (tellenc P statics_at_call b1)) b2 = tellenc P statics_at_call b2"
    using u by simp
next
  assume "length b1 > 4 \<and> check_ucs_bom b1 \<noteq> None"
  then show "snd (tellenc P g b1) = g"
    by (simp add: tellenc_statics)
qed

theorem statics_persist_witness:
  "fst (tellenc impl_a (snd (tellenc impl_a statics_at_call [0x00])) [0x00]) = Some ''utf-16'' \<and>
   fst (tellenc impl_a statics_at_call [0x00]) = Some ''utf-16'' \<and>
   is_binary (snd (tellenc impl_a statics_at_call [0x00])) \<and>
   \<not> is_utf8_conformant (snd (tellenc impl_a statics_at_call [0x00])) \<and>
   nul_stat (snd (tellenc impl_a statics_at_call [0x00])) = EVEN \<and>
   nul_stat (snd (tellenc impl_a (snd (tellenc impl_a statics_at_call [0x00])) [0x41, 0x00])) =
     ODD OR EVEN \<and>
   snd (tellenc impl_a statics_at_call [0x68, 0xC3, 0xA9]) = statics_at_call \<and>
   fst (tellenc impl_a (snd (tellenc impl_a statics_at_call [0x68, 0xC3, 0xA9])) [0xB0, 0xB1]) =
     Some ''gb2312'' \<and>
   fst (tellenc impl_a statics_at_call [0xB0, 0xB1]) = Some ''gb2312'' \<and>
   snd (tellenc impl_a statics_at_call [0xEF, 0xBB, 0xBF, 0x00, 0xFF]) = statics_at_call"
  using statics_persist [of impl_a statics_at_call "[0x00]" statics_at_call
      "[0x68, 0xC3, 0xA9]" "[0xB0, 0xB1]"]
    statics_persist [of impl_a statics_at_call "[0x00]" statics_at_call
      "[0xEF, 0xBB, 0xBF, 0x00, 0xFF]" "[]"]
  by (simp add: decide_eval scan_eval tellenc_statics impl_a_def)

text \<open>
  C2 as stated fails: after a call on the buffer \<^verbatim>\<open>00\<close> the buffer \<^verbatim>\<open>41\<close> is labelled
  \<^verbatim>\<open>utf-16\<close>; alone it is labelled \<^verbatim>\<open>ascii\<close>.
\<close>

theorem fresh_accumulators_counterexample:
  "fst (tellenc impl_a (snd (tellenc impl_a statics_at_call [0x00])) [0x41]) = Some ''utf-16'' \<and>
   fst (tellenc impl_a statics_at_call [0x41]) = Some ''ascii''"
  by (simp add: decide_eval scan_eval tellenc_statics impl_a_def)

end
